theory Spec2Isabelle
  imports Complex_Main "HOL-Library.Sublist"
begin

section \<open>Data model of \<^verbatim>\<open>Client/web_streaming.py\<close>\<close>

text \<open>
  Python \<^verbatim>\<open>bytes\<close> are lists of 8-bit characters. Python \<^verbatim>\<open>int\<close> is unbounded, so the
  frame counter is an \<^typ>\<open>int\<close>. The capture interval is a float in the source; only its
  value as a number matters here and it is kept as a rational.
\<close>

type_synonym bytes = string

record AppConfig =
  capture_interval :: rat
  jpeg_quality :: int
  host :: string
  port :: int
  debug :: bool

text \<open>The field defaults of the dataclass (lines 14-20).\<close>

definition AppConfig_default :: AppConfig where
  "AppConfig_default =
     \<lparr>capture_interval = 1 / 2, jpeg_quality = 80, host = ''0.0.0.0'', port = 8000,
      debug = False\<rparr>"

text \<open>\<^verbatim>\<open>load_config\<close> (lines 23-31).\<close>

definition load_config :: AppConfig where
  "load_config =
     \<lparr>capture_interval = 3 / 100, jpeg_quality = 80, host = ''0.0.0.0'', port = 8000,
      debug = False\<rparr>"

text \<open>
  The fields of \<^verbatim>\<open>CameraInferenceService\<close> that the threads share: \<^verbatim>\<open>_stop\<close> (an Event, here
  the flag it holds), \<^verbatim>\<open>_latest_original\<close> and \<^verbatim>\<open>_frame_seq\<close>. The camera object and the
  thread handle are external collaborators and carry no state of the hub.
\<close>

record service =
  config :: AppConfig
  stop_flag :: bool
  latest_original :: "bytes option"
  frame_seq :: int

text \<open>\<^verbatim>\<open>__init__\<close> (lines 37-44).\<close>

definition init_service :: "AppConfig \<Rightarrow> service" where
  "init_service cfg =
     \<lparr>config = cfg, stop_flag = False, latest_original = None, frame_seq = 0\<rparr>"

text \<open>
  \<^verbatim>\<open>stop\<close> (lines 58-69): sets the event. Joining the thread and stopping and closing the
  camera (every exception swallowed) leave the shared fields alone. The method does not
  touch \<^verbatim>\<open>_condition\<close>.
\<close>

definition stop :: "service \<Rightarrow> service" where
  "stop s = s\<lparr>stop_flag := True\<rparr>"

text \<open>
  The publishing block of \<^verbatim>\<open>_loop\<close> (lines 109-112), run under the condition's lock:
  store the encoded frame, add one to the counter; \<^verbatim>\<open>notify_all\<close> follows.
\<close>

definition publish :: "service \<Rightarrow> bytes \<Rightarrow> service" where
  "publish s buf = s\<lparr>latest_original := Some buf, frame_seq := frame_seq s + 1\<rparr>"

section \<open>The capture loop\<close>

text \<open>
  One call of \<^verbatim>\<open>picam2.capture_array()\<close> raises, returns \<^verbatim>\<open>None\<close>, or returns a raw frame.
\<close>

datatype 'raw capture = CaptureRaises | CaptureNone | Captured 'raw

text \<open>A call into a library either raises or returns a value.\<close>

datatype 'a raising = Raises | Returns 'a

text \<open>
  \<^verbatim>\<open>cv2.imencode\<close> is a parameter: it takes the raw frame and the parameter list and either
  raises or returns the pair \<^verbatim>\<open>(ok, buf)\<close> that line 104 unpacks. \<^verbatim>\<open>cv2.IMWRITE_JPEG_QUALITY\<close>
  is OpenCV's constant 1.
\<close>

type_synonym 'raw encoder = "'raw \<Rightarrow> int list \<Rightarrow> (bool \<times> bytes) raising"

definition IMWRITE_JPEG_QUALITY :: int where
  "IMWRITE_JPEG_QUALITY = 1"

text \<open>Line 90: \<^verbatim>\<open>int(max(10, min(95, self.config.jpeg_quality)))\<close>.\<close>

definition loop_jpeg_quality :: "AppConfig \<Rightarrow> int" where
  "loop_jpeg_quality cfg = max 10 (min 95 (jpeg_quality cfg))"

text \<open>Line 91.\<close>

definition encode_params :: "AppConfig \<Rightarrow> int list" where
  "encode_params cfg = [IMWRITE_JPEG_QUALITY, loop_jpeg_quality cfg]"

text \<open>
  One pass through the body of the \<^verbatim>\<open>while\<close> loop (lines 93-115). When the pass goes back to
  the loop test, the result is the service after the pass and whether \<^verbatim>\<open>notify_all\<close> was
  called. The three \<^verbatim>\<open>continue\<close> branches (capture raised and was caught, capture returned
  \<^verbatim>\<open>None\<close>, encoding reported failure) print or sleep and go back to the loop test. The call
  of the encoder on line 104 stands outside the \<^verbatim>\<open>try\<close> of lines 93-98 and \<^verbatim>\<open>_loop\<close> has no
  other handler: when it raises, the exception leaves \<^verbatim>\<open>_loop\<close> and the pass raises.
\<close>

fun loop_body :: "'raw encoder \<Rightarrow> service \<Rightarrow> 'raw capture \<Rightarrow> (service \<times> bool) raising" where
  "loop_body enc s CaptureRaises = Returns (s, False)"
| "loop_body enc s CaptureNone = Returns (s, False)"
| "loop_body enc s (Captured bgr) =
     (case enc bgr (encode_params (config s)) of
        Raises \<Rightarrow> Raises
      | Returns (ok_orig, orig_buf) \<Rightarrow>
          if \<not> ok_orig then Returns (s, False) else Returns (publish s orig_buf, True))"

text \<open>
  \<^verbatim>\<open>_loop\<close> run on its own against the camera's successive outcomes: the loop test reads
  the stop flag before every pass, and a pass that raises ends the loop where it stands.
\<close>

fun loop :: "'raw encoder \<Rightarrow> service \<Rightarrow> 'raw capture list \<Rightarrow> service" where
  "loop enc s [] = s"
| "loop enc s (c # cs) =
     (if stop_flag s then s
      else (case loop_body enc s c of
              Raises \<Rightarrow> s
            | Returns (s', notified) \<Rightarrow> loop enc s' cs))"

text \<open>
  The bytes a pass publishes for a captured frame: those the encoder returned, when it
  returned them with \<^verbatim>\<open>ok\<close> true.
\<close>

definition encoded :: "'raw encoder \<Rightarrow> AppConfig \<Rightarrow> 'raw \<Rightarrow> bytes option" where
  "encoded enc cfg bgr =
     (case enc bgr (encode_params cfg) of
        Raises \<Rightarrow> None
      | Returns (ok, buf) \<Rightarrow> if ok then Some buf else None)"

text \<open>
  A pass that takes one of the three \<^verbatim>\<open>continue\<close> branches: the capture raised or returned
  nothing, or the encoder returned with \<^verbatim>\<open>ok\<close> false.
\<close>

fun failed_pass :: "'raw encoder \<Rightarrow> AppConfig \<Rightarrow> 'raw capture \<Rightarrow> bool" where
  "failed_pass enc cfg CaptureRaises = True"
| "failed_pass enc cfg CaptureNone = True"
| "failed_pass enc cfg (Captured bgr) =
     (case enc bgr (encode_params cfg) of Raises \<Rightarrow> False | Returns (ok, buf) \<Rightarrow> \<not> ok)"

section \<open>The frame generator\<close>

definition boundary :: bytes where
  "boundary = ''--frame''"

text \<open>The chunk built on line 86; \<^verbatim>\<open>\r\<close> is character 13 and \<^verbatim>\<open>\n\<close> character 10.\<close>

definition chunk_of :: "bytes \<Rightarrow> bytes" where
  "chunk_of frame =
     boundary @ ([CHR 0x0D, CHR 0x0A] @ ''Content-Type: image/jpeg'' @
       [CHR 0x0D, CHR 0x0A, CHR 0x0D, CHR 0x0A]) @ frame @ [CHR 0x0D, CHR 0x0A]"

text \<open>
  One iteration of the generator's outer loop (lines 74-86) against the shared fields as
  it finds them: it ends when the stop flag is set (lines 74 and 78), goes into
  \<^verbatim>\<open>_condition.wait(timeout=1.0)\<close> when its \<^verbatim>\<open>last_seq\<close> equals the counter (line 76), goes
  round again when no frame is stored (line 83), and otherwise yields the chunk and takes
  the counter as its new \<^verbatim>\<open>last_seq\<close>.
\<close>

datatype gen_result = GenStopped | GenBlocked | GenNoFrame | GenYield bytes int

definition gen_step :: "service \<Rightarrow> int \<Rightarrow> gen_result" where
  "gen_step s lastv =
     (if stop_flag s then GenStopped
      else if lastv = frame_seq s then GenBlocked
      else (case latest_original s of
              None \<Rightarrow> GenNoFrame
            | Some frame \<Rightarrow> GenYield (chunk_of frame) (frame_seq s)))"

section \<open>Threads\<close>

text \<open>
  The capture thread is at the loop test (line 92), inside the body, or has left the loop
  (the test found the stop flag set, or a pass raised).
  A generator is runnable, inside the timed wait of line 77, or exhausted. A session keeps
  the generator's local \<^verbatim>\<open>last_seq\<close> and, as a history of what it has yielded, each chunk
  with the counter value it was read with.
\<close>

datatype loop_pc = LoopTest | LoopBody | LoopExit

datatype gen_pc = GenRun | GenWait | GenDone

record session =
  last_seq :: int
  gen_pc :: gen_pc
  delivered :: "(int \<times> bytes) list"

text \<open>Lines 72-73: a generator starts with \<^verbatim>\<open>last_seq = -1\<close>.\<close>

definition new_session :: session where
  "new_session = \<lparr>last_seq = - 1, gen_pc = GenRun, delivered = []\<rparr>"

text \<open>A waiting generator leaves the wait, on \<^verbatim>\<open>notify_all\<close> or when its second has passed.\<close>

definition wake :: "session \<Rightarrow> session" where
  "wake ss = (if gen_pc ss = GenWait then ss\<lparr>gen_pc := GenRun\<rparr> else ss)"

text \<open>A runnable generator runs to its next wait, yield or exit.\<close>

definition resume :: "service \<Rightarrow> session \<Rightarrow> session" where
  "resume s ss =
     (if gen_pc ss \<noteq> GenRun then ss
      else (case gen_step s (last_seq ss) of
              GenStopped \<Rightarrow> ss\<lparr>gen_pc := GenDone\<rparr>
            | GenBlocked \<Rightarrow> ss\<lparr>gen_pc := GenWait\<rparr>
            | GenNoFrame \<Rightarrow> ss
            | GenYield chunk seq \<Rightarrow>
                ss\<lparr>last_seq := seq, delivered := delivered ss @ [(seq, chunk)]\<rparr>))"

text \<open>
  The whole program: the shared fields, the capture thread, the generators of the
  connected clients, and the history of the frames published so far (a pass of the loop
  that publishes appends the frame it stored).
\<close>

record system =
  svc :: service
  capture_thread :: loop_pc
  sessions :: "session list"
  published :: "bytes list"

definition init_system :: "AppConfig \<Rightarrow> system" where
  "init_system cfg =
     \<lparr>svc = init_service cfg, capture_thread = LoopTest, sessions = [], published = []\<rparr>"

text \<open>
  What can happen next: the capture thread evaluates its loop test or runs one pass of the
  body with the camera's outcome; \<^verbatim>\<open>stop()\<close> is called; a client connects to the stream; the
  generator of session \<open>i\<close> runs; the timed wait of session \<open>i\<close> runs out.
\<close>

datatype 'raw event =
    LoopTestEv
  | LoopBodyEv "'raw capture"
  | StopEv
  | ConnectEv
  | ResumeEv nat
  | TimeoutEv nat

fun step :: "'raw encoder \<Rightarrow> system \<Rightarrow> 'raw event \<Rightarrow> system" where
  "step enc sys LoopTestEv =
     (if capture_thread sys = LoopTest
      then sys\<lparr>capture_thread := (if stop_flag (svc sys) then LoopExit else LoopBody)\<rparr>
      else sys)"
| "step enc sys (LoopBodyEv c) =
     (if capture_thread sys = LoopBody
      then (case loop_body enc (svc sys) c of
              Raises \<Rightarrow> sys\<lparr>capture_thread := LoopExit\<rparr>
            | Returns (s', notified) \<Rightarrow>
                sys\<lparr>svc := s', capture_thread := LoopTest,
                    sessions := (if notified then map wake (sessions sys) else sessions sys),
                    published :=
                      (if notified
                       then published sys @
                              (case latest_original s' of None \<Rightarrow> [] | Some buf \<Rightarrow> [buf])
                       else published sys)\<rparr>)
      else sys)"
| "step enc sys StopEv = sys\<lparr>svc := stop (svc sys)\<rparr>"
| "step enc sys ConnectEv = sys\<lparr>sessions := sessions sys @ [new_session]\<rparr>"
| "step enc sys (ResumeEv i) =
     (if i < length (sessions sys)
      then sys\<lparr>sessions := (sessions sys)[i := resume (svc sys) (sessions sys ! i)]\<rparr>
      else sys)"
| "step enc sys (TimeoutEv i) =
     (if i < length (sessions sys)
      then sys\<lparr>sessions := (sessions sys)[i := wake (sessions sys ! i)]\<rparr>
      else sys)"

fun run :: "'raw encoder \<Rightarrow> system \<Rightarrow> 'raw event list \<Rightarrow> system" where
  "run enc sys [] = sys"
| "run enc sys (ev # evs) = run enc (step enc sys ev) evs"

section \<open>The generator between its read and its yield\<close>

text \<open>
  \<^verbatim>\<open>resume\<close> runs one whole iteration of the generator in one step. In the source the
  iteration has two parts that another thread can separate: the tests and the read of
  \<^verbatim>\<open>_latest_original\<close> and \<^verbatim>\<open>_frame_seq\<close> (lines 74-82, the read under the condition's lock),
  and then, with the lock released, lines 83-86 that take the read counter as \<^verbatim>\<open>last_seq\<close>
  and yield the chunk. \<^verbatim>\<open>stop()\<close> sets the event without taking the lock, so it can fall
  between the two. A fine session is a session together with what its generator has read
  and not yet yielded.
\<close>

record fine_session =
  base :: session
  held :: "(int \<times> bytes) option"

definition fine_new :: fine_session where
  "fine_new = \<lparr>base = new_session, held = None\<rparr>"

definition fine_wake :: "fine_session \<Rightarrow> fine_session" where
  "fine_wake fs = fs\<lparr>base := wake (base fs)\<rparr>"

text \<open>
  A runnable generator that holds a pair yields it (lines 85-86); one that holds none
  evaluates the tests and reads (lines 74-82), which ends it, sends it into the wait, sends
  it round again, or leaves it holding the pair it read.
\<close>

definition fine_resume :: "service \<Rightarrow> fine_session \<Rightarrow> fine_session" where
  "fine_resume s fs =
     (if gen_pc (base fs) \<noteq> GenRun then fs
      else (case held fs of
              Some (seq, chunk) \<Rightarrow>
                fs\<lparr>base := (base fs)\<lparr>last_seq := seq,
                                     delivered := delivered (base fs) @ [(seq, chunk)]\<rparr>,
                   held := None\<rparr>
            | None \<Rightarrow>
                (case gen_step s (last_seq (base fs)) of
                   GenStopped \<Rightarrow> fs\<lparr>base := (base fs)\<lparr>gen_pc := GenDone\<rparr>\<rparr>
                 | GenBlocked \<Rightarrow> fs\<lparr>base := (base fs)\<lparr>gen_pc := GenWait\<rparr>\<rparr>
                 | GenNoFrame \<Rightarrow> fs
                 | GenYield chunk seq \<Rightarrow> fs\<lparr>held := Some (seq, chunk)\<rparr>)))"

record fine_system =
  fsvc :: service
  fcapture_thread :: loop_pc
  fsessions :: "fine_session list"

definition init_fine_system :: "AppConfig \<Rightarrow> fine_system" where
  "init_fine_system cfg =
     \<lparr>fsvc = init_service cfg, fcapture_thread = LoopTest, fsessions = []\<rparr>"

text \<open>The same events; \<open>ResumeEv i\<close> now runs one of the two parts of an iteration.\<close>

fun fine_step :: "'raw encoder \<Rightarrow> fine_system \<Rightarrow> 'raw event \<Rightarrow> fine_system" where
  "fine_step enc sys LoopTestEv =
     (if fcapture_thread sys = LoopTest
      then sys\<lparr>fcapture_thread := (if stop_flag (fsvc sys) then LoopExit else LoopBody)\<rparr>
      else sys)"
| "fine_step enc sys (LoopBodyEv c) =
     (if fcapture_thread sys = LoopBody
      then (case loop_body enc (fsvc sys) c of
              Raises \<Rightarrow> sys\<lparr>fcapture_thread := LoopExit\<rparr>
            | Returns (s', notified) \<Rightarrow>
                sys\<lparr>fsvc := s', fcapture_thread := LoopTest,
                    fsessions :=
                      (if notified then map fine_wake (fsessions sys) else fsessions sys)\<rparr>)
      else sys)"
| "fine_step enc sys StopEv = sys\<lparr>fsvc := stop (fsvc sys)\<rparr>"
| "fine_step enc sys ConnectEv = sys\<lparr>fsessions := fsessions sys @ [fine_new]\<rparr>"
| "fine_step enc sys (ResumeEv i) =
     (if i < length (fsessions sys)
      then sys\<lparr>fsessions :=
                 (fsessions sys)[i := fine_resume (fsvc sys) (fsessions sys ! i)]\<rparr>
      else sys)"
| "fine_step enc sys (TimeoutEv i) =
     (if i < length (fsessions sys)
      then sys\<lparr>fsessions := (fsessions sys)[i := fine_wake (fsessions sys ! i)]\<rparr>
      else sys)"

fun fine_run :: "'raw encoder \<Rightarrow> fine_system \<Rightarrow> 'raw event list \<Rightarrow> fine_system" where
  "fine_run enc sys [] = sys"
| "fine_run enc sys (ev # evs) = fine_run enc (fine_step enc sys ev) evs"

text \<open>
  What a session has been handed together with what its generator has read for it and
  not yet yielded.
\<close>

definition owed :: "fine_session \<Rightarrow> (int \<times> bytes) list" where
  "owed fs = delivered (base fs) @ (case held fs of None \<Rightarrow> [] | Some p \<Rightarrow> [p])"

text \<open>
  How many more runs a generator can make once the stop flag is set: none when exhausted,
  one when runnable and holding nothing, two when runnable and holding a pair; a waiting
  one counts above all of these.
\<close>

definition runs_left :: "fine_session \<Rightarrow> nat" where
  "runs_left fs =
     (case gen_pc (base fs) of
        GenDone \<Rightarrow> 0
      | GenRun \<Rightarrow> (if held fs = None then 1 else 2)
      | GenWait \<Rightarrow> 3)"

section \<open>Invariants of the reachable states\<close>

text \<open>
  The counter is the number of frames published so far, and the stored frame is the last
  of them (none before the first publish).
\<close>

definition hub_ok :: "system \<Rightarrow> bool" where
  "hub_ok sys =
     (frame_seq (svc sys) = int (length (published sys))
      \<and> latest_original (svc sys) =
          (if published sys = [] then None else Some (last (published sys))))"

text \<open>
  A generator's \<^verbatim>\<open>last_seq\<close> lies between its initial \<open>-1\<close> and the counter; the counter
  values it has yielded with increase strictly and none exceeds \<^verbatim>\<open>last_seq\<close>; the chunk yielded
  with counter value \<open>v\<close> carries the \<open>v\<close>-th published frame.
\<close>

definition session_ok :: "bytes list \<Rightarrow> session \<Rightarrow> bool" where
  "session_ok pub ss =
     (- 1 \<le> last_seq ss \<and> last_seq ss \<le> int (length pub)
      \<and> sorted_wrt (<) (map fst (delivered ss))
      \<and> list_all (\<lambda>(v, c). 0 < v \<and> v \<le> last_seq ss \<and> c = chunk_of (pub ! nat (v - 1)))
          (delivered ss))"

definition system_ok :: "system \<Rightarrow> bool" where
  "system_ok sys = (hub_ok sys \<and> list_all (session_ok (published sys)) (sessions sys))"

section \<open>The HTTP handler\<close>

text \<open>
  What \<^verbatim>\<open>do_GET\<close> (lines 149-182) does to the connection, as the list of the calls it makes:
  \<^verbatim>\<open>send_response\<close>, \<^verbatim>\<open>send_header\<close>, \<^verbatim>\<open>end_headers\<close> and \<^verbatim>\<open>wfile.write\<close>. A write on the stream
  succeeds, raises \<^verbatim>\<open>BrokenPipeError\<close> (line 175, \<^verbatim>\<open>break\<close>) or raises something else (line 177,
  \<^verbatim>\<open>pass\<close>); the last two both end the request.
\<close>

datatype http_action =
    SendResponse int
  | SendHeader string string
  | EndHeaders
  | WfileWrite bytes

datatype write_result = WriteOk | BrokenPipeError | OtherException

text \<open>
  The landing page (lines 118-143). It is ASCII, so its UTF-8 encoding on line 155 is the
  same list of characters.
\<close>

definition template :: string where
  \<open>template = ''<!doctype html>
<html lang="en">
<head>
  <meta charset="utf-8">
    <title>Live Camera Stream</title>
  <style>
    body { font-family: Arial, sans-serif; margin: 20px; background: #f3f3f3; }
    .wrapper { background: #fff; padding: 16px; border-radius: 8px; box-shadow: 0 2px 6px rgba(0,0,0,0.1); }
    .images { display: grid; grid-template-columns: repeat(auto-fit, minmax(280px, 1fr)); gap: 16px; margin-top: 12px; }
    img { width: 100%; border: 1px solid #ddd; border-radius: 6px; background: #fafafa; min-height: 160px; }
    h1 { margin-bottom: 4px; }
    p { margin: 0; }
  </style>
</head>
<body>
    <div class="wrapper">
    <h1>Camera Monitor</h1>
    <div class="images">
      <div>
        <img id="img-original" src="/stream" alt="Original stream">
      </div>
    </div>
  </div>
</body>
</html>
''\<close>

text \<open>
  Python's \<^verbatim>\<open>str\<close> on the non-negative result of \<^verbatim>\<open>len\<close> (line 156): the decimal digits.
\<close>

definition digit_char :: "nat \<Rightarrow> char" where
  "digit_char d = char_of (48 + d)"

function str :: "nat \<Rightarrow> string" where
  "str n = (if n < 10 then [digit_char n] else str (n div 10) @ [digit_char (n mod 10)])"
  by pat_completeness auto
termination
  by (relation "measure id") auto

declare str.simps [simp del]

text \<open>
  The loop of lines 172-176 over the chunks the generator yields; \<open>wfile n\<close> is the
  outcome of the \<open>n\<close>-th write on this connection.
\<close>

fun write_chunks :: "(nat \<Rightarrow> write_result) \<Rightarrow> nat \<Rightarrow> bytes list \<Rightarrow> http_action list" where
  "write_chunks wfile n [] = []"
| "write_chunks wfile n (chunk # chunks) =
     WfileWrite chunk #
       (case wfile n of
          WriteOk \<Rightarrow> write_chunks wfile (Suc n) chunks
        | BrokenPipeError \<Rightarrow> []
        | OtherException \<Rightarrow> [])"

text \<open>
  \<^verbatim>\<open>do_GET\<close>. \<open>parsed\<close> is the outcome of lines 150-151, \<^verbatim>\<open>urlparse(self.path).path\<close>: the
  library call returns the path of the request target, or raises \<^verbatim>\<open>ValueError\<close> (as it does
  on the target \<^verbatim>\<open>http://[/stream\<close>, which the server's request parser lets through). The
  call stands outside any \<^verbatim>\<open>try\<close>: when it raises, the exception leaves \<^verbatim>\<open>do_GET\<close> before the
  handler has sent anything. \<open>service_handle\<close> is what \<^verbatim>\<open>globals().get("service")\<close> returns:
  \<open>None\<close>, or the registered service, given by the chunks that iterating its
  \<^verbatim>\<open>frame_generator()\<close> produces for this request.
\<close>

definition do_GET ::
  "string raising \<Rightarrow> bytes list option \<Rightarrow> (nat \<Rightarrow> write_result) \<Rightarrow> http_action list" where
  "do_GET parsed service_handle wfile =
     (case parsed of
        Raises \<Rightarrow> []
      | Returns path \<Rightarrow>
          if path = ''/'' then
            [SendResponse 200,
             SendHeader ''Content-Type'' ''text/html; charset=utf-8'',
             SendHeader ''Content-Length'' (str (length template)),
             EndHeaders,
             WfileWrite template]
          else if path = ''/stream'' then
            [SendResponse 200,
             SendHeader ''Content-Type'' ''multipart/x-mixed-replace; boundary=frame'',
             EndHeaders] @
            (case service_handle of
               None \<Rightarrow> []
             | Some chunks \<Rightarrow> write_chunks wfile 0 chunks)
          else [SendResponse 404, EndHeaders])"

section \<open>Concrete runs\<close>

text \<open>
  An encoder that returns the raw frame as the encoded bytes and reports failure on an
  empty frame, and three schedules. In the first a session receives frame A, the capture
  thread publishes B and C, and the session runs again. The other two are read with the
  generator's iteration in its two parts: in the second a session's generator has read
  frame A and not yet yielded it; in the third it has gone on to yield A and then into the
  timed wait.
\<close>

definition echo_encoder :: "bytes encoder" where
  "echo_encoder bgr params = Returns (bgr \<noteq> [], bgr)"

text \<open>
  An encoder that, like \<^verbatim>\<open>cv2.imencode\<close> on an empty array, raises on an empty frame.
\<close>

definition strict_encoder :: "bytes encoder" where
  "strict_encoder bgr params = (if bgr = [] then Raises else Returns (True, bgr))"

definition events_skip :: "bytes event list" where
  "events_skip =
     [LoopTestEv, LoopBodyEv (Captured ''A''), ConnectEv, ResumeEv 0,
      LoopTestEv, LoopBodyEv (Captured ''B''), LoopTestEv, LoopBodyEv (Captured ''C''),
      ResumeEv 0]"

definition events_held :: "bytes event list" where
  "events_held = [LoopTestEv, LoopBodyEv (Captured ''A''), ConnectEv, ResumeEv 0]"

definition events_blocked :: "bytes event list" where
  "events_blocked = events_held @ [ResumeEv 0, ResumeEv 0]"

lemmas eval_defs =
  echo_encoder_def init_system_def init_service_def load_config_def publish_def stop_def
  new_session_def resume_def gen_step_def wake_def encode_params_def loop_jpeg_quality_def
  IMWRITE_JPEG_QUALITY_def init_fine_system_def fine_new_def fine_wake_def fine_resume_def

section \<open>The version counter\<close>

lemma loop_body_cases:
  "loop_body enc s c = Raises
   \<or> loop_body enc s c = Returns (s, False)
   \<or> (\<exists>buf. loop_body enc s c = Returns (publish s buf, True))"
proof (cases c)
  case (Captured bgr)
  show ?thesis
  proof (cases "enc bgr (encode_params (config s))")
    case Raises
    with Captured show ?thesis by simp
  next
    case (Returns r)
    obtain ok buf where "r = (ok, buf)" by (cases r)
    with Captured Returns show ?thesis by (cases ok) auto
  qed
qed simp_all

lemma step_loop_body_cases:
  "step enc sys (LoopBodyEv c) = sys
   \<or> step enc sys (LoopBodyEv c) = sys\<lparr>capture_thread := LoopExit\<rparr>
   \<or> step enc sys (LoopBodyEv c) = sys\<lparr>capture_thread := LoopTest\<rparr>
   \<or> (\<exists>buf. step enc sys (LoopBodyEv c) =
         sys\<lparr>svc := publish (svc sys) buf, capture_thread := LoopTest,
             sessions := map wake (sessions sys), published := published sys @ [buf]\<rparr>)"
proof (cases "capture_thread sys = LoopBody")
  case False
  then show ?thesis by simp
next
  case True
  from loop_body_cases [of enc "svc sys" c] show ?thesis
  proof (elim disjE exE)
    assume "loop_body enc (svc sys) c = Raises"
    with True show ?thesis by simp
  next
    assume "loop_body enc (svc sys) c = Returns (svc sys, False)"
    with True show ?thesis by simp
  next
    fix buf
    assume "loop_body enc (svc sys) c = Returns (publish (svc sys) buf, True)"
    with True have "step enc sys (LoopBodyEv c) =
         sys\<lparr>svc := publish (svc sys) buf, capture_thread := LoopTest,
             sessions := map wake (sessions sys), published := published sys @ [buf]\<rparr>"
      by (simp add: publish_def)
    then show ?thesis by blast
  qed
qed

lemma frame_seq_step_cases:
  "frame_seq (svc (step enc sys ev)) = frame_seq (svc sys)
   \<or> frame_seq (svc (step enc sys ev)) = frame_seq (svc sys) + 1"
proof (cases ev)
  case (LoopBodyEv c)
  from step_loop_body_cases [of enc sys c] show ?thesis
    unfolding LoopBodyEv by (elim disjE exE) (simp_all add: publish_def)
qed (simp_all add: stop_def)

lemma frame_seq_step:
  "frame_seq (svc sys) \<le> frame_seq (svc (step enc sys ev))"
  using frame_seq_step_cases [of enc sys ev] by auto

lemma frame_seq_run:
  "frame_seq (svc sys) \<le> frame_seq (svc (run enc sys evs))"
proof (induction evs arbitrary: sys)
  case Nil
  show ?case by simp
next
  case (Cons ev evs)
  have "frame_seq (svc sys) \<le> frame_seq (svc (step enc sys ev))"
    by (rule frame_seq_step)
  also have "\<dots> \<le> frame_seq (svc (run enc (step enc sys ev) evs))"
    by (rule Cons.IH)
  finally show ?case by simp
qed

lemma loop_body_encoded:
  "encoded enc (config s) bgr = Some buf \<Longrightarrow>
     loop_body enc s (Captured bgr) = Returns (publish s buf, True)"
  by (auto simp: encoded_def split: raising.splits prod.splits if_splits)

lemma loop_all_encoded:
  assumes "\<not> stop_flag s" and "config s = cfg"
    and "list_all (\<lambda>b. encoded enc cfg b \<noteq> None) bgrs"
  shows "frame_seq (loop enc s (map Captured bgrs)) = frame_seq s + int (length bgrs)
    \<and> latest_original (loop enc s (map Captured bgrs)) =
        (if bgrs = [] then latest_original s else encoded enc cfg (last bgrs))"
  using assms
proof (induction bgrs arbitrary: s)
  case Nil
  show ?case by simp
next
  case (Cons b bgrs)
  from Cons.prems obtain buf where buf: "encoded enc (config s) b = Some buf" by auto
  let ?s = "publish s buf"
  have step: "loop enc s (map Captured (b # bgrs)) = loop enc ?s (map Captured bgrs)"
    using Cons.prems(1) loop_body_encoded [OF buf] by simp
  have "frame_seq (loop enc ?s (map Captured bgrs)) = frame_seq ?s + int (length bgrs)
    \<and> latest_original (loop enc ?s (map Captured bgrs)) =
        (if bgrs = [] then latest_original ?s else encoded enc cfg (last bgrs))"
    using Cons.prems by (intro Cons.IH) (simp_all add: publish_def)
  with buf Cons.prems(2) show ?case
    unfolding step by (simp add: publish_def)
qed

section \<open>Reachable states satisfy the invariants\<close>

lemma system_ok_init: "system_ok (init_system cfg)"
  by (simp add: system_ok_def hub_ok_def init_system_def init_service_def)

lemma session_ok_new: "session_ok pub new_session"
  by (simp add: session_ok_def new_session_def)

lemma session_ok_wake: "session_ok pub ss \<Longrightarrow> session_ok pub (wake ss)"
  by (simp add: session_ok_def wake_def)

lemma session_ok_append:
  assumes ok: "session_ok pub ss"
  shows "session_ok (pub @ [b]) ss"
proof -
  have "(pub @ [b]) ! nat (v - 1) = pub ! nat (v - 1)" if "0 < v" "v \<le> last_seq ss" for v
  proof -
    from ok have "last_seq ss \<le> int (length pub)" by (simp add: session_ok_def)
    with that have "nat (v - 1) < length pub" by linarith
    then show ?thesis by (simp add: nth_append)
  qed
  with ok show ?thesis
    unfolding session_ok_def by (auto simp: list_all_iff)
qed

lemma session_ok_resume:
  assumes hub: "frame_seq s = int (length pub)"
      "latest_original s = (if pub = [] then None else Some (last pub))"
    and ok: "session_ok pub ss"
  shows "session_ok pub (resume s ss)"
proof (cases "gen_pc ss = GenRun")
  case False
  with ok show ?thesis by (simp add: resume_def)
next
  case True
  show ?thesis
  proof (cases "gen_step s (last_seq ss)")
    case GenStopped
    with True ok show ?thesis by (simp add: resume_def session_ok_def)
  next
    case GenBlocked
    with True ok show ?thesis by (simp add: resume_def session_ok_def)
  next
    case GenNoFrame
    with True ok show ?thesis by (simp add: resume_def)
  next
    case (GenYield chunk v)
    then have ne: "pub \<noteq> []" and v: "v = int (length pub)"
      and chunk: "chunk = chunk_of (last pub)" and neq: "last_seq ss \<noteq> int (length pub)"
      using hub by (auto simp: gen_step_def split: if_splits option.splits)
    from ok neq have lt: "last_seq ss < v" by (simp add: session_ok_def v)
    from ne have pos: "0 < v" by (simp add: v)
    from ne have nth: "pub ! nat (v - 1) = last pub"
      by (simp add: v last_conv_nth nat_diff_distrib')
    have r: "resume s ss = ss\<lparr>last_seq := v, delivered := delivered ss @ [(v, chunk)]\<rparr>"
      using True GenYield by (simp add: resume_def)
    from ok lt pos nth chunk show ?thesis
      unfolding r session_ok_def
      by (auto simp: sorted_wrt_append list_all_iff v)
  qed
qed

lemma system_ok_step: "system_ok sys \<Longrightarrow> system_ok (step enc sys ev)"
proof (cases ev)
  case LoopTestEv
  assume "system_ok sys"
  with LoopTestEv show ?thesis by (auto simp: system_ok_def hub_ok_def)
next
  case (LoopBodyEv c)
  assume ok: "system_ok sys"
  from step_loop_body_cases [of enc sys c] show ?thesis
  proof (elim disjE exE)
    fix buf
    assume "step enc sys (LoopBodyEv c) =
         sys\<lparr>svc := publish (svc sys) buf, capture_thread := LoopTest,
             sessions := map wake (sessions sys), published := published sys @ [buf]\<rparr>"
    with ok show ?thesis
      unfolding LoopBodyEv
      by (auto simp: system_ok_def hub_ok_def publish_def list_all_iff
          intro!: session_ok_append session_ok_wake)
  qed (use ok in \<open>auto simp: LoopBodyEv system_ok_def hub_ok_def\<close>)
next
  case StopEv
  assume "system_ok sys"
  with StopEv show ?thesis by (simp add: system_ok_def hub_ok_def stop_def)
next
  case ConnectEv
  assume "system_ok sys"
  with ConnectEv show ?thesis by (simp add: system_ok_def hub_ok_def session_ok_new)
next
  case (ResumeEv i)
  assume ok: "system_ok sys"
  show ?thesis
  proof (cases "i < length (sessions sys)")
    case False
    with ok ResumeEv show ?thesis by simp
  next
    case True
    with ok have "session_ok (published sys) (sessions sys ! i)"
      by (simp add: system_ok_def list_all_length)
    with ok have "session_ok (published sys) (resume (svc sys) (sessions sys ! i))"
      by (intro session_ok_resume) (simp_all add: system_ok_def hub_ok_def)
    with ok True ResumeEv show ?thesis
      by (auto simp: system_ok_def hub_ok_def list_all_iff
          dest: set_update_subset_insert [THEN subsetD])
  qed
next
  case (TimeoutEv i)
  assume ok: "system_ok sys"
  show ?thesis
  proof (cases "i < length (sessions sys)")
    case False
    with ok TimeoutEv show ?thesis by simp
  next
    case True
    with ok have "session_ok (published sys) (wake (sessions sys ! i))"
      by (simp add: system_ok_def list_all_length session_ok_wake)
    with ok True TimeoutEv show ?thesis
      by (auto simp: system_ok_def hub_ok_def list_all_iff
          dest: set_update_subset_insert [THEN subsetD])
  qed
qed

lemma system_ok_run: "system_ok sys \<Longrightarrow> system_ok (run enc sys evs)"
  by (induction evs arbitrary: sys) (simp_all add: system_ok_step)

lemma reachable_ok: "system_ok (run enc (init_system cfg) evs)"
  by (simp add: system_ok_run system_ok_init)

text \<open>
  C1. A pass of the capture loop whose frame the encoder returns with success stores exactly
  that frame as the current one and adds exactly one to the counter, changing nothing else
  of the shared fields; the counter is strictly larger afterwards. A loop that is not
  stopped and meets a sequence of such passes adds the length of the sequence to the
  counter and leaves the last frame current. Every single event of the program (a loop
  test, a pass of the loop, \<^verbatim>\<open>stop()\<close>, a client connecting, a generator running or timing
  out) leaves the counter as it is or adds one, so no run ever makes it smaller; and in
  every reachable state the counter is the number of frames published so far.
\<close>

theorem publish_increments_version:
  assumes body: "capture_thread sys = LoopBody"
    and enc_ok: "enc bgr (encode_params (config (svc sys))) = Returns (True, buf)"
    and running: "\<not> stop_flag s"
    and all_ok: "list_all (\<lambda>b. encoded enc (config s) b \<noteq> None) bgrs"
  shows "svc (step enc sys (LoopBodyEv (Captured bgr))) =
        (svc sys)\<lparr>latest_original := Some buf, frame_seq := frame_seq (svc sys) + 1\<rparr>
    \<and> frame_seq (svc sys) < frame_seq (svc (step enc sys (LoopBodyEv (Captured bgr))))
    \<and> frame_seq (loop enc s (map Captured bgrs)) = frame_seq s + int (length bgrs)
    \<and> (bgrs \<noteq> [] \<longrightarrow>
          latest_original (loop enc s (map Captured bgrs)) = encoded enc (config s) (last bgrs))
    \<and> (frame_seq (svc (step enc sys' ev)) = frame_seq (svc sys')
         \<or> frame_seq (svc (step enc sys' ev)) = frame_seq (svc sys') + 1)
    \<and> frame_seq (svc sys') \<le> frame_seq (svc (run enc sys' evs))
    \<and> frame_seq (svc (run enc (init_system cfg) evs)) =
        int (length (published (run enc (init_system cfg) evs)))"
proof -
  have a: "svc (step enc sys (LoopBodyEv (Captured bgr))) =
        (svc sys)\<lparr>latest_original := Some buf, frame_seq := frame_seq (svc sys) + 1\<rparr>"
    using body enc_ok by (simp add: publish_def)
  then have b: "frame_seq (svc sys) < frame_seq (svc (step enc sys (LoopBodyEv (Captured bgr))))"
    by simp
  from loop_all_encoded [OF running refl all_ok]
  have c: "frame_seq (loop enc s (map Captured bgrs)) = frame_seq s + int (length bgrs)"
    and d: "bgrs \<noteq> [] \<longrightarrow>
          latest_original (loop enc s (map Captured bgrs)) = encoded enc (config s) (last bgrs)"
    by simp_all
  have e: "frame_seq (svc (run enc (init_system cfg) evs)) =
        int (length (published (run enc (init_system cfg) evs)))"
    using reachable_ok [of enc cfg evs] by (simp add: system_ok_def hub_ok_def)
  from a b c d e frame_seq_step_cases [of enc sys' ev] frame_seq_run [of sys' enc evs]
  show ?thesis by blast
qed

text \<open>
  The scenario: with the capture thread inside the body, a pass that captures and encodes
  frame A leaves A stored and the counter at 1; a loop over the frames A and B ends with
  the counter at 2 and B stored.
\<close>

theorem publish_increments_version_witness:
  "capture_thread (run echo_encoder (init_system load_config) [LoopTestEv]) = LoopBody
   \<and> echo_encoder ''A''
        (encode_params (config (svc (run echo_encoder (init_system load_config) [LoopTestEv]))))
      = Returns (True, ''A'')
   \<and> \<not> stop_flag (init_service load_config)
   \<and> list_all (\<lambda>b. encoded echo_encoder (config (init_service load_config)) b \<noteq> None)
        [''A'', ''B'']
   \<and> svc (run echo_encoder (init_system load_config) [LoopTestEv, LoopBodyEv (Captured ''A'')]) =
       (init_service load_config)\<lparr>latest_original := Some ''A'', frame_seq := 1\<rparr>
   \<and> frame_seq (loop echo_encoder (init_service load_config) [Captured ''A'', Captured ''B'']) = 2
   \<and> latest_original (loop echo_encoder (init_service load_config)
        [Captured ''A'', Captured ''B'']) = Some ''B''"
  using publish_increments_version
    [where enc = echo_encoder and sys = "run echo_encoder (init_system load_config) [LoopTestEv]"
       and bgr = "''A''" and buf = "''A''" and s = "init_service load_config"
       and bgrs = "[''A'', ''B'']" and sys' = "init_system load_config" and ev = StopEv
       and evs = "[]" and cfg = load_config]
  by (simp add: eval_defs encoded_def)

section \<open>What one event does to one session\<close>

lemma delivered_wake: "delivered (wake ss) = delivered ss"
  by (simp add: wake_def)

lemma length_sessions_step: "length (sessions sys) \<le> length (sessions (step enc sys ev))"
  by (cases ev) (simp_all split: prod.splits raising.splits)

lemma length_sessions_run: "length (sessions sys) \<le> length (sessions (run enc sys evs))"
proof (induction evs arbitrary: sys)
  case Nil
  show ?case by simp
next
  case (Cons ev evs)
  from length_sessions_step [of sys enc ev] Cons.IH [of "step enc sys ev"]
  show ?case by simp
qed

lemma nth_sessions_step:
  assumes "i < length (sessions sys)"
  shows "sessions (step enc sys ev) ! i = sessions sys ! i
       \<or> sessions (step enc sys ev) ! i = wake (sessions sys ! i)
       \<or> sessions (step enc sys ev) ! i = resume (svc sys) (sessions sys ! i)"
proof (cases ev)
  case (LoopBodyEv c)
  with assms show ?thesis by (simp split: prod.splits raising.splits)
next
  case ConnectEv
  with assms show ?thesis by (simp add: nth_append)
next
  case (ResumeEv j)
  with assms show ?thesis by (cases "j = i") simp_all
next
  case (TimeoutEv j)
  with assms show ?thesis by (cases "j = i") simp_all
qed simp_all

lemma resume_cases:
  "resume s ss = ss
   \<or> resume s ss = ss\<lparr>gen_pc := GenDone\<rparr> \<and> gen_pc ss = GenRun \<and> stop_flag s
   \<or> resume s ss = ss\<lparr>gen_pc := GenWait\<rparr> \<and> gen_pc ss = GenRun \<and> \<not> stop_flag s
   \<or> (\<exists>frame. resume s ss =
          ss\<lparr>last_seq := frame_seq s, delivered := delivered ss @ [(frame_seq s, chunk_of frame)]\<rparr>
        \<and> gen_pc ss = GenRun \<and> \<not> stop_flag s \<and> last_seq ss \<noteq> frame_seq s
        \<and> latest_original s = Some frame)"
  by (cases "latest_original s") (auto simp: resume_def gen_step_def)

lemma published_step_mono: "length (published sys) \<le> length (published (step enc sys ev))"
  by (cases ev) (simp_all split: prod.splits option.splits raising.splits)

lemma published_run_mono: "length (published sys) \<le> length (published (run enc sys evs))"
proof (induction evs arbitrary: sys)
  case Nil
  show ?case by simp
next
  case (Cons ev evs)
  from published_step_mono [of sys enc ev] Cons.IH [of "step enc sys ev"]
  show ?case by simp
qed

section \<open>Sessions see increasing versions\<close>

text \<open>
  C2. In every state the program can reach, for every session: the counter values it has
  been handed so far increase strictly, and the chunk handed over with value \<open>v\<close> carries
  the \<open>v\<close>-th published frame; whenever the generator's next iteration yields, the value it
  yields with is larger than the session's \<^verbatim>\<open>last_seq\<close>, it is the number of frames published
  so far, and the chunk carries the last published frame; and any single event either
  hands the session nothing or exactly that one latest pair, however many frames were
  published since the session last ran.
\<close>

theorem session_versions_strictly_increase:
  assumes reach: "sys = run enc (init_system cfg) evs"
    and i: "i < length (sessions sys)"
  shows "sorted_wrt (<) (map fst (delivered (sessions sys ! i)))
    \<and> list_all (\<lambda>(v, chunk). 0 < v \<and> v \<le> int (length (published sys))
                  \<and> chunk = chunk_of (published sys ! nat (v - 1)))
        (delivered (sessions sys ! i))
    \<and> (\<forall>chunk v. gen_step (svc sys) (last_seq (sessions sys ! i)) = GenYield chunk v \<longrightarrow>
          last_seq (sessions sys ! i) < v \<and> v = int (length (published sys))
          \<and> chunk = chunk_of (last (published sys)))
    \<and> (delivered (sessions (step enc sys ev) ! i) = delivered (sessions sys ! i)
       \<or> delivered (sessions (step enc sys ev) ! i) =
            delivered (sessions sys ! i) @
              [(int (length (published sys)), chunk_of (last (published sys)))]
          \<and> last_seq (sessions sys ! i) < int (length (published sys)))"
proof -
  let ?ss = "sessions sys ! i"
  have ok: "system_ok sys" unfolding reach by (rule reachable_ok)
  then have hub: "frame_seq (svc sys) = int (length (published sys))"
    "latest_original (svc sys) =
       (if published sys = [] then None else Some (last (published sys)))"
    by (simp_all add: system_ok_def hub_ok_def)
  from ok i have sok: "session_ok (published sys) ?ss"
    by (simp add: system_ok_def list_all_length)
  have sorted: "sorted_wrt (<) (map fst (delivered ?ss))"
    using sok by (simp add: session_ok_def)
  have entries: "list_all (\<lambda>(v, chunk). 0 < v \<and> v \<le> int (length (published sys))
                  \<and> chunk = chunk_of (published sys ! nat (v - 1))) (delivered ?ss)"
    using sok by (auto simp: session_ok_def list_all_iff)
  have le: "last_seq ?ss \<le> int (length (published sys))"
    using sok by (simp add: session_ok_def)
  have yield: "last_seq ?ss < v \<and> v = int (length (published sys))
      \<and> chunk = chunk_of (last (published sys))"
    if "gen_step (svc sys) (last_seq ?ss) = GenYield chunk v" for chunk v
    using that hub le by (auto simp: gen_step_def split: if_splits option.splits)
  have stepd: "delivered (sessions (step enc sys ev) ! i) = delivered ?ss
       \<or> delivered (sessions (step enc sys ev) ! i) =
            delivered ?ss @ [(int (length (published sys)), chunk_of (last (published sys)))]
          \<and> last_seq ?ss < int (length (published sys))"
  proof -
    from nth_sessions_step [OF i, of enc ev]
    consider "sessions (step enc sys ev) ! i = ?ss"
      | "sessions (step enc sys ev) ! i = wake ?ss"
      | "sessions (step enc sys ev) ! i = resume (svc sys) ?ss"
      by blast
    then show ?thesis
    proof cases
      case 1
      then show ?thesis by simp
    next
      case 2
      then show ?thesis by (simp add: delivered_wake)
    next
      case 3
      from resume_cases [of "svc sys" ?ss] show ?thesis
      proof (elim disjE exE conjE)
        fix frame
        assume r: "resume (svc sys) ?ss = ?ss\<lparr>last_seq := frame_seq (svc sys),
            delivered := delivered ?ss @ [(frame_seq (svc sys), chunk_of frame)]\<rparr>"
          and ne: "last_seq ?ss \<noteq> frame_seq (svc sys)"
          and fr: "latest_original (svc sys) = Some frame"
        from fr hub have "frame = last (published sys)"
          by (auto split: if_splits)
        with r ne le hub 3 show ?thesis by simp
      qed (simp_all add: 3)
    qed
  qed
  from sorted entries yield stepd show ?thesis by blast
qed

text \<open>
  The scenario: the session receives A (version 1), B and C are published while it is away,
  and its next run hands it C (version 3) and never B.
\<close>

theorem session_versions_strictly_increase_witness:
  "(0::nat) < length (sessions (run echo_encoder (init_system load_config) events_skip))
   \<and> delivered (sessions (run echo_encoder (init_system load_config) events_skip) ! 0) =
       [(1, chunk_of ''A''), (3, chunk_of ''C'')]
   \<and> sorted_wrt (<)
       (map fst (delivered (sessions (run echo_encoder (init_system load_config) events_skip) ! 0)))"
  using session_versions_strictly_increase
    [where enc = echo_encoder and cfg = load_config and evs = events_skip and i = 0
       and ev = StopEv, OF refl]
  by (simp add: events_skip_def eval_defs)

section \<open>Stopping\<close>

text \<open>
  An iteration run as one step is its two parts run one after the other: the read, and,
  when the read left a pair held, the yield.
\<close>

lemma resume_is_read_then_yield:
  assumes "held fs = None"
  shows "(case gen_step s (last_seq (base fs)) of
            GenYield chunk seq \<Rightarrow>
              gen_pc (base fs) = GenRun \<longrightarrow>
                fine_resume s' (fine_resume s fs) = fs\<lparr>base := resume s (base fs)\<rparr>
          | _ \<Rightarrow> fine_resume s fs = fs\<lparr>base := resume s (base fs)\<rparr>)"
  using assms
  by (cases "gen_step s (last_seq (base fs))") (simp_all add: fine_resume_def resume_def)

lemma fine_step_loop_body_cases:
  "fine_step enc sys (LoopBodyEv c) = sys
   \<or> fine_step enc sys (LoopBodyEv c) = sys\<lparr>fcapture_thread := LoopExit\<rparr>
   \<or> fine_step enc sys (LoopBodyEv c) = sys\<lparr>fcapture_thread := LoopTest\<rparr>
   \<or> (\<exists>buf. fine_step enc sys (LoopBodyEv c) =
         sys\<lparr>fsvc := publish (fsvc sys) buf, fcapture_thread := LoopTest,
             fsessions := map fine_wake (fsessions sys)\<rparr>)"
proof (cases "fcapture_thread sys = LoopBody")
  case False
  then show ?thesis by simp
next
  case True
  from loop_body_cases [of enc "fsvc sys" c] show ?thesis
  proof (elim disjE exE)
    assume "loop_body enc (fsvc sys) c = Raises"
    with True show ?thesis by simp
  next
    assume "loop_body enc (fsvc sys) c = Returns (fsvc sys, False)"
    with True show ?thesis by simp
  next
    fix buf
    assume "loop_body enc (fsvc sys) c = Returns (publish (fsvc sys) buf, True)"
    with True have "fine_step enc sys (LoopBodyEv c) =
         sys\<lparr>fsvc := publish (fsvc sys) buf, fcapture_thread := LoopTest,
             fsessions := map fine_wake (fsessions sys)\<rparr>"
      by simp
    then show ?thesis by blast
  qed
qed

lemma stop_flag_fine_step: "stop_flag (fsvc sys) \<Longrightarrow> stop_flag (fsvc (fine_step enc sys ev))"
proof (cases ev)
  case (LoopBodyEv c)
  assume "stop_flag (fsvc sys)"
  with fine_step_loop_body_cases [of enc sys c] show ?thesis
    unfolding LoopBodyEv by (elim disjE exE) (simp_all add: publish_def)
qed (simp_all add: stop_def)

lemma stop_flag_fine_run: "stop_flag (fsvc sys) \<Longrightarrow> stop_flag (fsvc (fine_run enc sys evs))"
  by (induction evs arbitrary: sys) (simp_all add: stop_flag_fine_step)

lemma fine_run_append:
  "fine_run enc sys (evs @ evs') = fine_run enc (fine_run enc sys evs) evs'"
  by (induction evs arbitrary: sys) simp_all

lemma length_fsessions_step:
  "length (fsessions sys) \<le> length (fsessions (fine_step enc sys ev))"
  by (cases ev) (simp_all split: prod.splits raising.splits)

lemma length_fsessions_run:
  "length (fsessions sys) \<le> length (fsessions (fine_run enc sys evs))"
proof (induction evs arbitrary: sys)
  case Nil
  show ?case by simp
next
  case (Cons ev evs)
  from length_fsessions_step [of sys enc ev] Cons.IH [of "fine_step enc sys ev"]
  show ?case by simp
qed

lemma nth_fsessions_step:
  assumes "i < length (fsessions sys)"
  shows "fsessions (fine_step enc sys ev) ! i = fsessions sys ! i
       \<or> fsessions (fine_step enc sys ev) ! i = fine_wake (fsessions sys ! i)
       \<or> fsessions (fine_step enc sys ev) ! i = fine_resume (fsvc sys) (fsessions sys ! i)"
proof (cases ev)
  case (LoopBodyEv c)
  with assms show ?thesis by (simp split: prod.splits raising.splits)
next
  case ConnectEv
  with assms show ?thesis by (simp add: nth_append)
next
  case (ResumeEv j)
  with assms show ?thesis by (cases "j = i") simp_all
next
  case (TimeoutEv j)
  with assms show ?thesis by (cases "j = i") simp_all
qed simp_all

lemma owed_fine_wake: "owed (fine_wake fs) = owed fs"
  by (simp add: owed_def fine_wake_def wake_def)

lemma owed_o_fine_wake: "owed \<circ> fine_wake = owed"
  by (rule ext) (simp add: owed_fine_wake)

lemma fine_resume_stopped:
  "stop_flag s \<Longrightarrow>
     fine_resume s fs =
       (if gen_pc (base fs) \<noteq> GenRun then fs
        else (case held fs of
                Some (seq, chunk) \<Rightarrow>
                  fs\<lparr>base := (base fs)\<lparr>last_seq := seq,
                                       delivered := delivered (base fs) @ [(seq, chunk)]\<rparr>,
                     held := None\<rparr>
              | None \<Rightarrow> fs\<lparr>base := (base fs)\<lparr>gen_pc := GenDone\<rparr>\<rparr>))"
  by (simp add: fine_resume_def gen_step_def split: option.splits)

lemma owed_fine_resume_stopped: "stop_flag s \<Longrightarrow> owed (fine_resume s fs) = owed fs"
  by (simp add: fine_resume_stopped owed_def split: option.splits)

lemma stopped_step_owed:
  assumes "stop_flag (fsvc sys)"
  shows "map owed (fsessions (fine_step enc sys ev)) =
          map owed (fsessions sys) @ (if ev = ConnectEv then [[]] else [])"
proof (cases ev)
  case (LoopBodyEv c)
  from fine_step_loop_body_cases [of enc sys c] show ?thesis
    unfolding LoopBodyEv by (elim disjE exE) (simp_all add: owed_o_fine_wake)
next
  case ConnectEv
  then show ?thesis by (simp add: owed_def fine_new_def new_session_def)
next
  case (ResumeEv j)
  with assms show ?thesis
    by (simp add: map_update owed_fine_resume_stopped list_update_same_conv)
next
  case (TimeoutEv j)
  then show ?thesis by (simp add: map_update owed_fine_wake list_update_same_conv)
qed simp_all

lemma stopped_run_owed:
  "stop_flag (fsvc sys) \<Longrightarrow>
     \<exists>k. map owed (fsessions (fine_run enc sys evs)) = map owed (fsessions sys) @ replicate k []"
proof (induction evs arbitrary: sys)
  case Nil
  show ?case by (intro exI [of _ 0]) simp
next
  case (Cons ev evs)
  from Cons.prems have "stop_flag (fsvc (fine_step enc sys ev))" by (rule stop_flag_fine_step)
  from Cons.IH [OF this] obtain k where
    k: "map owed (fsessions (fine_run enc (fine_step enc sys ev) evs)) =
          map owed (fsessions (fine_step enc sys ev)) @ replicate k []"
    by blast
  show ?case
  proof (cases "ev = ConnectEv")
    case True
    with k stopped_step_owed [OF Cons.prems, of enc ev]
    have "map owed (fsessions (fine_run enc sys (ev # evs))) =
            map owed (fsessions sys) @ replicate (Suc k) []"
      by simp
    then show ?thesis by blast
  next
    case False
    with k stopped_step_owed [OF Cons.prems, of enc ev]
    have "map owed (fsessions (fine_run enc sys (ev # evs))) =
            map owed (fsessions sys) @ replicate k []"
      by simp
    then show ?thesis by blast
  qed
qed

lemma held_step:
  assumes "stop_flag (fsvc sys)" "i < length (fsessions sys)"
  shows "held (fsessions (fine_step enc sys ev) ! i) = held (fsessions sys ! i)
       \<or> held (fsessions (fine_step enc sys ev) ! i) = None"
  using nth_fsessions_step [OF assms(2), of enc ev] assms(1)
  by (auto simp: fine_wake_def fine_resume_stopped split: option.splits if_splits)

lemma held_run:
  assumes "stop_flag (fsvc sys)" "i < length (fsessions sys)"
  shows "held (fsessions (fine_run enc sys evs) ! i) = held (fsessions sys ! i)
       \<or> held (fsessions (fine_run enc sys evs) ! i) = None"
  using assms
proof (induction evs arbitrary: sys)
  case Nil
  show ?case by simp
next
  case (Cons ev evs)
  have "held (fsessions (fine_run enc (fine_step enc sys ev) evs) ! i) =
          held (fsessions (fine_step enc sys ev) ! i)
       \<or> held (fsessions (fine_run enc (fine_step enc sys ev) evs) ! i) = None"
  proof (rule Cons.IH)
    show "stop_flag (fsvc (fine_step enc sys ev))"
      using Cons.prems(1) by (rule stop_flag_fine_step)
    show "i < length (fsessions (fine_step enc sys ev))"
      using Cons.prems(2) length_fsessions_step [of sys enc ev] by simp
  qed
  with held_step [OF Cons.prems, of enc ev] show ?case by auto
qed

lemma owed_same_delivered:
  assumes "owed fs' = owed fs" and "held fs' = held fs \<or> held fs' = None"
  shows "delivered (base fs') = delivered (base fs)
       \<or> (\<exists>p. held fs = Some p \<and> delivered (base fs') = delivered (base fs) @ [p])"
  using assms by (auto simp: owed_def split: option.splits)

lemma runs_left_fine_wake: "runs_left (fine_wake fs) \<le> runs_left fs"
  by (cases "gen_pc (base fs)") (simp_all add: runs_left_def fine_wake_def wake_def)

lemma runs_left_fine_wake_2: "runs_left (fine_wake fs) \<le> 2"
  by (cases "gen_pc (base fs)") (simp_all add: runs_left_def fine_wake_def wake_def)

lemma runs_left_fine_resume:
  assumes "stop_flag s"
  shows "runs_left (fine_resume s fs) \<le> runs_left fs"
    and "runs_left fs \<le> 2 \<Longrightarrow> runs_left (fine_resume s fs) \<le> runs_left fs - 1"
  using assms
  by (cases "gen_pc (base fs)"; cases "held fs";
      simp add: runs_left_def fine_resume_stopped split: prod.splits)+

lemma runs_left_step:
  assumes "stop_flag (fsvc sys)" "i < length (fsessions sys)"
  shows "runs_left (fsessions (fine_step enc sys ev) ! i) \<le> runs_left (fsessions sys ! i)"
  using nth_fsessions_step [OF assms(2), of enc ev]
    runs_left_fine_wake [of "fsessions sys ! i"]
    runs_left_fine_resume(1) [OF assms(1), of "fsessions sys ! i"]
  by auto

lemma runs_left_run:
  assumes "stop_flag (fsvc sys)" "i < length (fsessions sys)"
  shows "runs_left (fsessions (fine_run enc sys evs) ! i) \<le> runs_left (fsessions sys ! i)"
  using assms
proof (induction evs arbitrary: sys)
  case Nil
  show ?case by simp
next
  case (Cons ev evs)
  have "runs_left (fsessions (fine_run enc (fine_step enc sys ev) evs) ! i)
          \<le> runs_left (fsessions (fine_step enc sys ev) ! i)"
  proof (rule Cons.IH)
    show "stop_flag (fsvc (fine_step enc sys ev))"
      using Cons.prems(1) by (rule stop_flag_fine_step)
    show "i < length (fsessions (fine_step enc sys ev))"
      using Cons.prems(2) length_fsessions_step [of sys enc ev] by simp
  qed
  also have "\<dots> \<le> runs_left (fsessions sys ! i)"
    using Cons.prems by (rule runs_left_step)
  finally show ?case by simp
qed

lemma stopped_timeout_two_runs:
  assumes stopped: "stop_flag (fsvc sys)" and i: "i < length (fsessions sys)"
  shows "gen_pc (base (fsessions (fine_run enc sys
            (before @ TimeoutEv i # between @ ResumeEv i # again @ ResumeEv i # after)) ! i))
          = GenDone"
proof -
  define a where "a = fine_run enc sys before"
  define b where "b = fine_step enc a (TimeoutEv i)"
  define c where "c = fine_run enc b between"
  define d where "d = fine_step enc c (ResumeEv i)"
  define e where "e = fine_run enc d again"
  define f where "f = fine_step enc e (ResumeEv i)"
  define g where "g = fine_run enc f after"
  have sa: "stop_flag (fsvc a)" unfolding a_def using stopped by (rule stop_flag_fine_run)
  have ia: "i < length (fsessions a)"
    unfolding a_def using i length_fsessions_run [of sys enc before] by simp
  have sb: "stop_flag (fsvc b)" unfolding b_def using sa by (rule stop_flag_fine_step)
  have ib: "i < length (fsessions b)" unfolding b_def using ia by simp
  have rb: "runs_left (fsessions b ! i) \<le> 2"
    unfolding b_def using ia by (simp add: runs_left_fine_wake_2)
  have sc: "stop_flag (fsvc c)" unfolding c_def using sb by (rule stop_flag_fine_run)
  have ic: "i < length (fsessions c)"
    unfolding c_def using ib length_fsessions_run [of b enc between] by simp
  have rc: "runs_left (fsessions c ! i) \<le> 2"
    unfolding c_def using runs_left_run [OF sb ib, of enc between] rb by simp
  have sd: "stop_flag (fsvc d)" unfolding d_def using sc by (rule stop_flag_fine_step)
  have id: "i < length (fsessions d)" unfolding d_def using ic by simp
  have rd: "runs_left (fsessions d ! i) \<le> 1"
    unfolding d_def using ic rc runs_left_fine_resume(2) [OF sc, of "fsessions c ! i"] by simp
  have se: "stop_flag (fsvc e)" unfolding e_def using sd by (rule stop_flag_fine_run)
  have ie: "i < length (fsessions e)"
    unfolding e_def using id length_fsessions_run [of d enc again] by simp
  have re: "runs_left (fsessions e ! i) \<le> 1"
    unfolding e_def using runs_left_run [OF sd id, of enc again] rd by simp
  have sf: "stop_flag (fsvc f)" unfolding f_def using se by (rule stop_flag_fine_step)
  have "if": "i < length (fsessions f)" unfolding f_def using ie by simp
  have rf: "runs_left (fsessions f ! i) = 0"
    unfolding f_def using ie re runs_left_fine_resume(2) [OF se, of "fsessions e ! i"] by simp
  have "runs_left (fsessions g ! i) = 0"
    unfolding g_def using runs_left_run [OF sf "if", of enc after] rf by simp
  then have "gen_pc (base (fsessions g ! i)) = GenDone"
    by (cases "gen_pc (base (fsessions g ! i))") (simp_all add: runs_left_def split: if_splits)
  then show ?thesis
    by (simp add: fine_run_append a_def b_def c_def d_def e_def f_def g_def)
qed

text \<open>
  C3, as the code has it. \<^verbatim>\<open>stop()\<close> sets the flag, changes neither the frame nor the counter,
  and a second call changes nothing more. It does not notify the condition: the call
  leaves every generator where it was, a waiting one inside its timed wait. The flag is
  never cleared by any later event. Every test a generator evaluates with the flag set
  returns the stopped signal. After \<^verbatim>\<open>stop()\<close> no generator reads another frame: what a
  session has been handed together with what its generator had already read stays as it
  was at the call, for the sessions connected before, and stays empty for those connected
  after; so a session is handed at most the one frame its generator was holding. And once
  a generator's timed wait has run out after the call, two runs of it finish it, whatever
  else happens before, in between and after.
\<close>

theorem stop_ends_sessions:
  assumes i: "i < length (fsessions sys)"
  shows "stop_flag (stop s) \<and> stop (stop s) = stop s
    \<and> latest_original (stop s) = latest_original s \<and> frame_seq (stop s) = frame_seq s
    \<and> fine_step enc (fine_step enc sys StopEv) StopEv = fine_step enc sys StopEv
    \<and> fsessions (fine_step enc sys StopEv) = fsessions sys
    \<and> stop_flag (fsvc (fine_run enc (fine_step enc sys StopEv) evs))
    \<and> gen_step (stop s) l = GenStopped
    \<and> (\<exists>k. map owed (fsessions (fine_run enc (fine_step enc sys StopEv) evs)) =
             map owed (fsessions sys) @ replicate k [])
    \<and> (delivered (base (fsessions (fine_run enc (fine_step enc sys StopEv) evs) ! i)) =
          delivered (base (fsessions sys ! i))
        \<or> (\<exists>p. held (fsessions sys ! i) = Some p
              \<and> delivered (base (fsessions (fine_run enc (fine_step enc sys StopEv) evs) ! i)) =
                  delivered (base (fsessions sys ! i)) @ [p]))
    \<and> gen_pc (base (fsessions (fine_run enc (fine_step enc sys StopEv)
         (before @ TimeoutEv i # between @ ResumeEv i # again @ ResumeEv i # after)) ! i))
        = GenDone"
proof -
  let ?sys = "fine_step enc sys StopEv"
  have st: "stop_flag (fsvc ?sys)" by (simp add: stop_def)
  have same: "fsessions ?sys = fsessions sys" by simp
  from i have i': "i < length (fsessions ?sys)" by simp
  have a: "stop_flag (fsvc (fine_run enc ?sys evs))" using st by (rule stop_flag_fine_run)
  from stopped_run_owed [OF st, of enc evs] obtain k where
    k: "map owed (fsessions (fine_run enc ?sys evs)) = map owed (fsessions sys) @ replicate k []"
    unfolding same by blast
  then have b: "\<exists>k. map owed (fsessions (fine_run enc ?sys evs)) =
             map owed (fsessions sys) @ replicate k []"
    by blast
  from k have "map owed (fsessions (fine_run enc ?sys evs)) ! i =
      (map owed (fsessions sys) @ replicate k []) ! i"
    by simp
  moreover have "i < length (fsessions (fine_run enc ?sys evs))"
    using i' length_fsessions_run [of ?sys enc evs] by simp
  ultimately have "owed (fsessions (fine_run enc ?sys evs) ! i) = owed (fsessions sys ! i)"
    using i by (simp add: nth_append)
  moreover have "held (fsessions (fine_run enc ?sys evs) ! i) = held (fsessions sys ! i)
       \<or> held (fsessions (fine_run enc ?sys evs) ! i) = None"
    using held_run [OF st i', of enc evs] by simp
  ultimately have c: "delivered (base (fsessions (fine_run enc ?sys evs) ! i)) =
          delivered (base (fsessions sys ! i))
        \<or> (\<exists>p. held (fsessions sys ! i) = Some p
              \<and> delivered (base (fsessions (fine_run enc ?sys evs) ! i)) =
                  delivered (base (fsessions sys ! i)) @ [p])"
    by (rule owed_same_delivered)
  have d: "gen_pc (base (fsessions (fine_run enc ?sys
         (before @ TimeoutEv i # between @ ResumeEv i # again @ ResumeEv i # after)) ! i))
        = GenDone"
    using st i' by (rule stopped_timeout_two_runs)
  have e: "stop_flag (stop s) \<and> stop (stop s) = stop s
    \<and> latest_original (stop s) = latest_original s \<and> frame_seq (stop s) = frame_seq s
    \<and> gen_step (stop s) l = GenStopped"
    by (simp add: stop_def gen_step_def)
  have f: "fine_step enc ?sys StopEv = ?sys" by (simp add: stop_def)
  from a b c d e f same show ?thesis by blast
qed

text \<open>
  The scenario: a generator has read frame A when \<^verbatim>\<open>stop()\<close> is called. It still yields A
  afterwards, and its next run finishes it.
\<close>

theorem stop_ends_sessions_witness:
  "(0::nat) < length (fsessions (fine_run echo_encoder (init_fine_system load_config) events_held))
   \<and> held (fsessions (fine_run echo_encoder (init_fine_system load_config) events_held) ! 0) =
       Some (1, chunk_of ''A'')
   \<and> delivered (base (fsessions (fine_run echo_encoder
        (fine_step echo_encoder
           (fine_run echo_encoder (init_fine_system load_config) events_held) StopEv)
        [TimeoutEv 0, ResumeEv 0, ResumeEv 0]) ! 0)) = [(1, chunk_of ''A'')]
   \<and> gen_pc (base (fsessions (fine_run echo_encoder
        (fine_step echo_encoder
           (fine_run echo_encoder (init_fine_system load_config) events_held) StopEv)
        [TimeoutEv 0, ResumeEv 0, ResumeEv 0]) ! 0)) = GenDone"
  using stop_ends_sessions
    [where sys = "fine_run echo_encoder (init_fine_system load_config) events_held" and i = 0
       and enc = echo_encoder and evs = "[TimeoutEv 0, ResumeEv 0, ResumeEv 0]"
       and before = "[]" and between = "[]" and again = "[]" and after = "[]"
       and s = "init_service load_config" and l = 0]
  by (simp add: events_held_def eval_defs)

text \<open>
  The claim as stated fails: a generator that went into the wait after yielding frame A is
  still inside the wait after \<^verbatim>\<open>stop()\<close> has set the flag.
\<close>

theorem stop_leaves_waiter_blocked:
  "gen_pc (base (fsessions
      (fine_run echo_encoder (init_fine_system load_config) events_blocked) ! 0)) = GenWait
   \<and> gen_pc (base (fsessions
      (fine_run echo_encoder (init_fine_system load_config) (events_blocked @ [StopEv])) ! 0))
      = GenWait
   \<and> stop_flag (fsvc
      (fine_run echo_encoder (init_fine_system load_config) (events_blocked @ [StopEv])))"
  by (simp add: events_blocked_def events_held_def eval_defs)

section \<open>Failed passes of the capture loop\<close>

lemma loop_body_failed:
  "failed_pass enc (config s) c \<Longrightarrow> loop_body enc s c = Returns (s, False)"
  by (cases c) (auto split: raising.splits prod.splits)

lemma loop_failed:
  "list_all (failed_pass enc (config s)) cs \<Longrightarrow> loop enc s (cs @ rest) = loop enc s rest"
proof (induction cs)
  case Nil
  show ?case by simp
next
  case (Cons c cs)
  then show ?case by (cases rest) (simp_all add: loop_body_failed)
qed

lemma loop_body_published:
  assumes "loop_body enc s c = Returns (s', True)"
  shows "\<exists>bgr buf. c = Captured bgr \<and> enc bgr (encode_params (config s)) = Returns (True, buf)
           \<and> s' = publish s buf"
  using assms by (cases c) (auto split: raising.splits prod.splits if_splits)

text \<open>
  What holds of the passes that go back to the loop test. A pass whose capture raised or
  returned nothing, or whose encoder returned with \<^verbatim>\<open>ok\<close> false, returns the service unchanged
  and notifies nobody; in the running program it takes the capture thread back to the loop
  test and changes nothing else. A loop that is not stopped and meets any number of such
  passes and then one capture that encodes with success ends in the state of a single
  publish of that encoded frame. A pass publishes only a frame that the encoder returned
  with success.
\<close>

lemma failed_pass_leaves_hub:
  assumes fails: "list_all (failed_pass enc (config s)) cs"
    and running: "\<not> stop_flag s"
    and encoded_ok: "enc bgr (encode_params (config s)) = Returns (True, buf)"
  shows "list_all (\<lambda>c. loop_body enc s c = Returns (s, False)) cs
    \<and> loop enc s cs = s
    \<and> loop enc s (cs @ [Captured bgr]) = publish s buf
    \<and> frame_seq (loop enc s (cs @ [Captured bgr])) = frame_seq s + 1
    \<and> latest_original (loop enc s (cs @ [Captured bgr])) = Some buf
    \<and> (\<forall>c s'. loop_body enc s c = Returns (s', True) \<longrightarrow>
          (\<exists>bgr' buf'. c = Captured bgr'
             \<and> enc bgr' (encode_params (config s)) = Returns (True, buf')
             \<and> s' = publish s buf'))
    \<and> (\<forall>sys c. capture_thread sys = LoopBody \<and> failed_pass enc (config (svc sys)) c \<longrightarrow>
          step enc sys (LoopBodyEv c) = sys\<lparr>capture_thread := LoopTest\<rparr>)"
proof -
  have a: "list_all (\<lambda>c. loop_body enc s c = Returns (s, False)) cs"
    using fails by (auto simp: list_all_iff loop_body_failed)
  have b: "loop enc s cs = s"
    using loop_failed [OF fails, of "[]"] by simp
  have c: "loop enc s (cs @ [Captured bgr]) = publish s buf"
    using loop_failed [OF fails, of "[Captured bgr]"] running encoded_ok by simp
  have d: "step enc sys (LoopBodyEv c) = sys\<lparr>capture_thread := LoopTest\<rparr>"
    if "capture_thread sys = LoopBody" "failed_pass enc (config (svc sys)) c" for sys c
    using that loop_body_failed [of enc "svc sys" c] by simp
  from a b c d loop_body_published [of enc s] show ?thesis
    by (simp add: publish_def)
qed

text \<open>
  C4 fails on the code where the encoder raises instead of returning: line 104 stands
  outside the \<^verbatim>\<open>try\<close> of lines 93-98. With an encoder that raises on an empty frame, a
  capture of an empty frame followed by a capture of frame A publishes nothing: the loop
  run on its own returns the service it started with, and in the running program the
  capture thread has left the loop, the counter is still 0, no frame is stored, and the
  later test and pass do nothing. With the capture raising instead (which is caught), the
  same schedule publishes A.
\<close>

theorem encoder_raise_ends_loop:
  "loop strict_encoder (init_service load_config) [Captured [], Captured ''A''] =
     init_service load_config
   \<and> run strict_encoder (init_system load_config)
        [LoopTestEv, LoopBodyEv (Captured []), LoopTestEv, LoopBodyEv (Captured ''A'')] =
       (init_system load_config)\<lparr>capture_thread := LoopExit\<rparr>
   \<and> frame_seq (svc (run strict_encoder (init_system load_config)
        [LoopTestEv, LoopBodyEv (Captured []), LoopTestEv, LoopBodyEv (Captured ''A'')])) = 0
   \<and> frame_seq (svc (run strict_encoder (init_system load_config)
        [LoopTestEv, LoopBodyEv CaptureRaises, LoopTestEv, LoopBodyEv (Captured ''A'')])) = 1"
proof -
  have a: "loop strict_encoder (init_service load_config) [Captured [], Captured ''A''] =
     init_service load_config"
    by (simp add: strict_encoder_def eval_defs)
  have b: "run strict_encoder (init_system load_config)
        [LoopTestEv, LoopBodyEv (Captured []), LoopTestEv, LoopBodyEv (Captured ''A'')] =
       (init_system load_config)\<lparr>capture_thread := LoopExit\<rparr>"
    by (simp add: strict_encoder_def eval_defs)
  have c: "frame_seq (svc (run strict_encoder (init_system load_config)
        [LoopTestEv, LoopBodyEv CaptureRaises, LoopTestEv, LoopBodyEv (Captured ''A'')])) = 1"
    by (simp add: strict_encoder_def eval_defs)
  from a b c show ?thesis
    by (simp only: simp_thms) (simp add: init_system_def init_service_def)
qed

text \<open>The last two facts again: the raising encoder costs the publish of A.\<close>

theorem encoder_raise_ends_loop_witness:
  "frame_seq (svc (run strict_encoder (init_system load_config)
        [LoopTestEv, LoopBodyEv (Captured []), LoopTestEv, LoopBodyEv (Captured ''A'')]))
   < frame_seq (svc (run strict_encoder (init_system load_config)
        [LoopTestEv, LoopBodyEv CaptureRaises, LoopTestEv, LoopBodyEv (Captured ''A'')]))"
  using encoder_raise_ends_loop by (elim conjE) (simp only: zero_less_one)

section \<open>A fresh session\<close>

text \<open>
  C5. In every reachable state in which at least one frame has been published and the
  stop flag is not set: the stored frame is the last published one and the counter is the
  number of publishes; the first iteration of a fresh generator (\<^verbatim>\<open>last_seq = -1\<close>) yields
  that frame's chunk with that counter value; a client that connects and runs once holds
  exactly this one pair; and the history of published frames never becomes empty again.
\<close>

theorem fresh_session_first_frame:
  assumes reach: "sys = run enc (init_system cfg) evs"
    and pub: "published sys \<noteq> []"
    and running: "\<not> stop_flag (svc sys)"
  shows "latest_original (svc sys) = Some (last (published sys))
    \<and> frame_seq (svc sys) = int (length (published sys))
    \<and> gen_step (svc sys) (last_seq new_session) =
        GenYield (chunk_of (last (published sys))) (int (length (published sys)))
    \<and> sessions (run enc sys [ConnectEv, ResumeEv (length (sessions sys))]) =
        sessions sys @
          [new_session\<lparr>last_seq := int (length (published sys)),
             delivered := [(int (length (published sys)), chunk_of (last (published sys)))]\<rparr>]
    \<and> published (run enc sys evs') \<noteq> []"
proof -
  have ok: "system_ok sys" unfolding reach by (rule reachable_ok)
  with pub have hub: "frame_seq (svc sys) = int (length (published sys))"
    "latest_original (svc sys) = Some (last (published sys))"
    by (simp_all add: system_ok_def hub_ok_def)
  have g: "gen_step (svc sys) (last_seq new_session) =
        GenYield (chunk_of (last (published sys))) (int (length (published sys)))"
    using hub running by (simp add: gen_step_def new_session_def)
  have r: "resume (svc sys) new_session =
      new_session\<lparr>last_seq := int (length (published sys)),
         delivered := [(int (length (published sys)), chunk_of (last (published sys)))]\<rparr>"
    using g by (simp add: resume_def) (simp add: new_session_def)
  have s: "sessions (run enc sys [ConnectEv, ResumeEv (length (sessions sys))]) =
        sessions sys @ [resume (svc sys) new_session]"
    by simp
  from published_run_mono [of sys enc evs'] pub
  have p: "published (run enc sys evs') \<noteq> []" by auto
  from hub g s r p show ?thesis by simp
qed

text \<open>
  The scenario: after frame A is published, a fresh generator yields A with version 1.
\<close>

theorem fresh_session_first_frame_witness:
  "published (run echo_encoder (init_system load_config)
      [LoopTestEv, LoopBodyEv (Captured ''A'')]) \<noteq> []
   \<and> \<not> stop_flag (svc (run echo_encoder (init_system load_config)
      [LoopTestEv, LoopBodyEv (Captured ''A'')]))
   \<and> gen_step (svc (run echo_encoder (init_system load_config)
        [LoopTestEv, LoopBodyEv (Captured ''A'')])) (last_seq new_session)
      = GenYield (chunk_of ''A'') 1"
  using fresh_session_first_frame
    [where enc = echo_encoder and cfg = load_config
       and evs = "[LoopTestEv, LoopBodyEv (Captured ''A'')]" and evs' = "[]", OF refl]
  by (simp add: eval_defs)

section \<open>Broadcast\<close>

text \<open>
  C6. What an iteration yields depends on the shared fields only: two iterations on the
  same fields that both yield, whatever their \<^verbatim>\<open>last_seq\<close>, yield the same chunk and the same
  counter value; any number of consumers whose \<^verbatim>\<open>last_seq\<close> differs from the counter all get the
  stored frame's chunk with the counter; and a generator's run changes neither the shared
  fields nor the history, so the frame stays there for the others.
\<close>

theorem consumers_observe_same_pair:
  "(gen_step s la = GenYield ca va \<and> gen_step s lb = GenYield cb vb \<longrightarrow> ca = cb \<and> va = vb)
   \<and> (\<not> stop_flag s \<and> latest_original s = Some frame \<and> list_all (\<lambda>l. l \<noteq> frame_seq s) ls \<longrightarrow>
        map (gen_step s) ls = replicate (length ls) (GenYield (chunk_of frame) (frame_seq s)))
   \<and> svc (step enc sys (ResumeEv i)) = svc sys
   \<and> published (step enc sys (ResumeEv i)) = published sys"
proof -
  have a: "gen_step s la = GenYield ca va \<and> gen_step s lb = GenYield cb vb \<longrightarrow> ca = cb \<and> va = vb"
    by (auto simp: gen_step_def split: if_splits option.splits)
  have b: "map (gen_step s) ls = replicate (length ls) (GenYield (chunk_of frame) (frame_seq s))"
    if "\<not> stop_flag s" "latest_original s = Some frame" "list_all (\<lambda>l. l \<noteq> frame_seq s) ls"
    using that by (induction ls) (simp_all add: gen_step_def)
  from a b show ?thesis by simp
qed

text \<open>
  The scenario: frame A is published (version 1); two fresh sessions and one more that is
  behind all get (A, 1).
\<close>

theorem consumers_observe_same_pair_witness:
  "gen_step (publish (init_service load_config) ''A'') (- 1) = GenYield (chunk_of ''A'') 1
   \<and> map (gen_step (publish (init_service load_config) ''A'')) [- 1, - 1, 0] =
       [GenYield (chunk_of ''A'') 1, GenYield (chunk_of ''A'') 1, GenYield (chunk_of ''A'') 1]"
  using consumers_observe_same_pair
    [where s = "publish (init_service load_config) ''A''" and la = "- 1" and lb = "- 1"
       and ca = "chunk_of ''A''" and cb = "chunk_of ''A''" and va = 1 and vb = 1
       and frame = "''A''" and ls = "[- 1, - 1, 0]" and enc = echo_encoder
       and sys = "init_system load_config" and i = 0]
  by (simp add: eval_defs)

section \<open>The multipart part\<close>

text \<open>
  C7. When an iteration of a runnable generator yields, a frame is stored and the chunk is
  the boundary marker, a line break, the content-type header for JPEG, a line break, an
  empty line, the frame's bytes and a line break (39 bytes around the frame); the counter
  value yielded with is the service's counter, the session's \<^verbatim>\<open>last_seq\<close> becomes that value,
  exactly this one chunk is added to what the session was handed, and the generator stays
  runnable.
\<close>

theorem yielded_chunk_is_one_part:
  assumes "gen_step s (last_seq ss) = GenYield chunk v" and "gen_pc ss = GenRun"
  shows "(\<exists>frame. latest_original s = Some frame
           \<and> chunk = ''--frame'' @ [CHR 0x0D, CHR 0x0A] @ ''Content-Type: image/jpeg'' @
               [CHR 0x0D, CHR 0x0A] @ [CHR 0x0D, CHR 0x0A] @ frame @ [CHR 0x0D, CHR 0x0A]
           \<and> length chunk = length frame + 39)
    \<and> v = frame_seq s
    \<and> last_seq (resume s ss) = v
    \<and> delivered (resume s ss) = delivered ss @ [(v, chunk)]
    \<and> gen_pc (resume s ss) = GenRun"
  using assms
  by (auto simp: gen_step_def resume_def chunk_of_def boundary_def
      split: if_splits option.splits)

text \<open>
  The scenario: with frame A stored, a fresh generator yields the part around A.
\<close>

theorem yielded_chunk_is_one_part_witness:
  "gen_pc new_session = GenRun
   \<and> gen_step (publish (init_service load_config) ''A'') (last_seq new_session) =
       GenYield (''--frame'' @ [CHR 0x0D, CHR 0x0A] @ ''Content-Type: image/jpeg'' @
         [CHR 0x0D, CHR 0x0A] @ [CHR 0x0D, CHR 0x0A] @ ''A'' @ [CHR 0x0D, CHR 0x0A]) 1
   \<and> last_seq (resume (publish (init_service load_config) ''A'') new_session) = 1"
  using yielded_chunk_is_one_part
    [where s = "publish (init_service load_config) ''A''" and ss = new_session
       and chunk = "chunk_of ''A''" and v = 1]
  by (simp add: eval_defs chunk_of_def boundary_def)

section \<open>The quality passed to the encoder\<close>

text \<open>
  C8, as the code has it. With configured quality \<open>q\<close>, a pass that captured a frame calls
  the encoder on that frame with the parameter list \<open>[IMWRITE_JPEG_QUALITY, max 10 (min 95 q)]\<close>:
  the configured value itself for \<open>q\<close> from 10 to 95, 10 below and 95 above. Both the
  dataclass default and \<^verbatim>\<open>load_config\<close> give 80, which is passed unchanged.
\<close>

theorem encoder_gets_clamped_quality:
  assumes "jpeg_quality (config s) = q"
  shows "(10 \<le> q \<and> q \<le> 95 \<longrightarrow>
           loop_body enc s (Captured bgr) =
             (case enc bgr [IMWRITE_JPEG_QUALITY, q] of
                Raises \<Rightarrow> Raises
              | Returns (ok, buf) \<Rightarrow>
                  Returns (if ok then (publish s buf, True) else (s, False))))
    \<and> (q < 10 \<longrightarrow> encode_params (config s) = [IMWRITE_JPEG_QUALITY, 10])
    \<and> (95 < q \<longrightarrow> encode_params (config s) = [IMWRITE_JPEG_QUALITY, 95])
    \<and> loop_body enc s (Captured bgr) =
         (case enc bgr [IMWRITE_JPEG_QUALITY, max 10 (min 95 q)] of
            Raises \<Rightarrow> Raises
          | Returns (ok, buf) \<Rightarrow>
              Returns (if ok then (publish s buf, True) else (s, False)))
    \<and> jpeg_quality AppConfig_default = 80 \<and> jpeg_quality load_config = 80
    \<and> encode_params load_config = [IMWRITE_JPEG_QUALITY, 80]"
  using assms
  by (auto simp: encode_params_def loop_jpeg_quality_def load_config_def AppConfig_default_def
      split: prod.splits raising.splits)

text \<open>
  The scenario: the loaded configuration has quality 80 and the encoder is called with 80.
\<close>

theorem encoder_gets_clamped_quality_witness:
  "jpeg_quality (config (init_service load_config)) = 80
   \<and> (10::int) \<le> 80 \<and> (80::int) \<le> 95
   \<and> encode_params (config (init_service load_config)) = [IMWRITE_JPEG_QUALITY, 80]
   \<and> loop_body echo_encoder (init_service load_config) (Captured ''A'') =
       Returns (publish (init_service load_config) ''A'', True)"
  using encoder_gets_clamped_quality
    [where s = "init_service load_config" and q = 80 and enc = echo_encoder and bgr = "''A''"]
  by (simp add: eval_defs)

text \<open>
  The claim as stated fails: a configured quality of 100 lies in 1..100, and the encoder is
  called with 95.
\<close>

theorem quality_100_is_lowered:
  "(1::int) \<le> 100 \<and> (100::int) \<le> 100
   \<and> jpeg_quality (load_config\<lparr>jpeg_quality := 100\<rparr>) = 100
   \<and> encode_params (load_config\<lparr>jpeg_quality := 100\<rparr>) = [IMWRITE_JPEG_QUALITY, 95]
   \<and> loop_jpeg_quality (load_config\<lparr>jpeg_quality := 100\<rparr>) \<noteq> 100"
  by (simp add: encode_params_def loop_jpeg_quality_def load_config_def)

section \<open>Routing\<close>










text \<open>
  C10. For the parsed path \<^verbatim>\<open>/stream\<close> with no service registered the handler sends status
  200 and the multipart content type, ends the headers, and writes nothing: no 404 and no
  other status.
\<close>

theorem stream_without_service:
  "do_GET (Returns ''/stream'') None wfile =
     [SendResponse 200,
      SendHeader ''Content-Type'' ''multipart/x-mixed-replace; boundary=frame'',
      EndHeaders]"
  by (simp add: do_GET_def)

text \<open>
  The same at a connection whose writes would all succeed.
\<close>

theorem stream_without_service_witness:
  "do_GET (Returns ''/stream'') None (\<lambda>n. WriteOk) =
     [SendResponse 200,
      SendHeader ''Content-Type'' ''multipart/x-mixed-replace; boundary=frame'',
      EndHeaders]"
  using stream_without_service [of "\<lambda>n. WriteOk"]
  by simp

end
